theory Spec2Isabelle
  imports Main
begin

section \<open>Python strings\<close>

text \<open>
  Python's \<open>str\<close> is a sequence of Unicode code points: it is modelled as a list of
  integers, as \<open>ord\<close> gives them, and \<open>lit\<close> gives the code points of a literal. Whitespace
  (\<open>str.isspace\<close>, \<open>str.strip\<close> and the class \<open>\s\<close> of a \<open>str\<close> pattern) is the set
  of code points CPython treats as whitespace; the class \<open>[A-Z]\<close> is the ASCII range.
  \<open>str.lower\<close> follows the Unicode tables of the Python runtime: the functions that call
  it take it as a parameter \<open>lower\<close>.
\<close>

type_synonym str = "int list"

definition ord :: "char \<Rightarrow> int" where
  \<comment> \<open>Python's \<open>ord\<close> of an ASCII character\<close>
  "ord c = of_char c"

definition lit :: "string \<Rightarrow> str" where
  "lit s = map ord s"

definition newline :: int where
  "newline = 10"

definition is_space :: "int \<Rightarrow> bool" where
  \<comment> \<open>\<open>str.isspace\<close> of one character, which is also the class \<open>\s\<close>\<close>
  "is_space c =
     ((9 \<le> c \<and> c \<le> 13) \<or> (28 \<le> c \<and> c \<le> 32) \<or> c = 133 \<or> c = 160 \<or> c = 5760
      \<or> (8192 \<le> c \<and> c \<le> 8202) \<or> c = 8232 \<or> c = 8233 \<or> c = 8239 \<or> c = 8287
      \<or> c = 12288)"

definition is_upper :: "int \<Rightarrow> bool" where
  \<comment> \<open>the class \<open>[A-Z]\<close>\<close>
  "is_upper c = (65 \<le> c \<and> c \<le> 90)"

definition strip :: "str \<Rightarrow> str" where
  \<comment> \<open>\<open>s.strip()\<close>\<close>
  "strip s = rev (dropWhile is_space (rev (dropWhile is_space s)))"

definition replace_char :: "int \<Rightarrow> int \<Rightarrow> str \<Rightarrow> str" where
  \<comment> \<open>\<open>s.replace(a, b)\<close> for one-character \<open>a\<close> and \<open>b\<close>\<close>
  "replace_char a b s = map (\<lambda>c. if c = a then b else c) s"

fun join :: "str \<Rightarrow> str list \<Rightarrow> str" where
  \<comment> \<open>\<open>sep.join(parts)\<close>\<close>
  "join sep [] = []"
| "join sep [x] = x"
| "join sep (x # y # ys) = x @ sep @ join sep (y # ys)"

function str_nat :: "nat \<Rightarrow> str" where
  "str_nat n =
     (if n < 10 then [48 + int n]
      else str_nat (n div 10) @ [48 + int (n mod 10)])"
  by pat_completeness auto
termination
  by (relation "measure id") auto

definition str_int :: "int \<Rightarrow> str" where
  \<comment> \<open>\<open>str(i)\<close> of a Python int, as an f-string formats it\<close>
  "str_int i = (if i < 0 then ord CHR ''-'' # str_nat (nat (- i)) else str_nat (nat i))"

definition str_opt :: "str option \<Rightarrow> str" where
  \<comment> \<open>an f-string field holding an optional string: \<open>None\<close> prints as its name\<close>
  "str_opt v = (case v of None \<Rightarrow> lit ''None'' | Some s \<Rightarrow> s)"

definition truthy :: "str option \<Rightarrow> bool" where
  \<comment> \<open>the truth value of an optional string: \<open>None\<close> and the empty string are false\<close>
  "truthy v = (case v of None \<Rightarrow> False | Some s \<Rightarrow> s \<noteq> [])"

fun is_prefix :: "str \<Rightarrow> str \<Rightarrow> bool" where
  "is_prefix [] ys = True"
| "is_prefix (x # xs) [] = False"
| "is_prefix (x # xs) (y # ys) = (x = y \<and> is_prefix xs ys)"

fun contains :: "str \<Rightarrow> str \<Rightarrow> bool" where
  \<comment> \<open>\<open>contains s sub\<close> is Python's \<open>sub in s\<close>\<close>
  "contains [] sub = (sub = [])"
| "contains (c # cs) sub = (is_prefix sub (c # cs) \<or> contains cs sub)"

section \<open>Ingestion: the chunker (src/ingestion/chunker.py)\<close>

record LegalDocument =
  content :: str
  source_file :: str
  act_name :: str
  act_year :: "int option"
  chapter' :: "str option"
  section_number :: "str option"
  section_title :: "str option"
  page_number :: "int option"
  doc_type :: str
  tags :: "str list"

record Chunk =
  chunk_id :: str
  content :: str
  chunk_index :: int
  total_chunks :: int
  act_name :: str
  act_year :: "int option"
  chapter' :: "str option"
  section_number :: "str option"
  section_title :: "str option"
  doc_type :: str
  tags :: "str list"
  source_file :: str

text \<open>
  \<open>LegalChunker\<close>: its two budgets and its encoder. The encoder is tiktoken's, a
  library outside the repository, so it is a field of the record: a function from a
  text to its token ids.
\<close>

record LegalChunker =
  max_tokens :: int
  overlap_tokens :: int
  encoder :: "str \<Rightarrow> nat list"

definition count_tokens :: "LegalChunker \<Rightarrow> str \<Rightarrow> int" where
  "count_tokens ch text = int (length (encoder ch text))"

definition build_section_header :: "LegalDocument \<Rightarrow> str" where
  "build_section_header doc =
     (let part0 = lit ''['' @ LegalDocument.act_name doc
            @ (case LegalDocument.act_year doc of
                 None \<Rightarrow> []
               | Some y \<Rightarrow> if y \<noteq> 0 then lit '', '' @ str_int y else [])
            @ lit '']'';
          parts = [part0]
            @ (if truthy (LegalDocument.chapter' doc)
               then [lit ''Chapter: '' @ str_opt (LegalDocument.chapter' doc)] else [])
            @ (if truthy (LegalDocument.section_number doc) \<and> truthy (LegalDocument.section_title doc)
               then [lit ''Section '' @ str_opt (LegalDocument.section_number doc) @ lit '': ''
                       @ str_opt (LegalDocument.section_title doc)]
               else if truthy (LegalDocument.section_number doc)
               then [lit ''Section '' @ str_opt (LegalDocument.section_number doc)]
               else [])
      in join (lit '' | '') parts @ [newline, newline])"

text \<open>
  \<open>re.split\<close> on the pattern
  \<^verbatim>\<open>(?<=[.!?])\s+(?=[A-Z\(\"])|(?<=\))\s+(?=\()\<close>.
  A match is a maximal run of whitespace: the character before it decides the
  look-behind, so a match starts at the start of a run, and after a shorter run the next
  character is whitespace, which no look-ahead accepts. \<open>boundary prev rest\<close> tests
  the character before the run and the text after it.
\<close>

definition boundary :: "int option \<Rightarrow> str \<Rightarrow> bool" where
  "boundary prev rest =
     (case (prev, rest) of
        (Some p, n # _) \<Rightarrow>
          ((p = ord CHR ''.'' \<or> p = ord CHR ''!'' \<or> p = ord CHR ''?'')
             \<and> (is_upper n \<or> n = ord CHR 0x28 \<or> n = ord CHR 0x22))
          \<or> (p = ord CHR 0x29 \<and> n = ord CHR 0x28)
      | _ \<Rightarrow> False)"

text \<open>
  \<open>split_scan skipping prev text cur\<close> reads the text from left to right; \<open>cur\<close> is
  the piece read since the last match, \<open>prev\<close> the character before the position,
  \<open>skipping\<close> holds inside a match.
\<close>

fun split_scan :: "bool \<Rightarrow> int option \<Rightarrow> str \<Rightarrow> str \<Rightarrow> str list" where
  "split_scan skipping prev [] cur = [cur]"
| "split_scan skipping prev (c # cs) cur =
     (if skipping \<and> is_space c then split_scan True prev cs cur
      else if is_space c \<and> boundary prev (dropWhile is_space cs)
      then cur # split_scan True prev cs []
      else split_scan False (Some c) cs (cur @ [c]))"

definition split_into_sentences :: "str \<Rightarrow> str list" where
  "split_into_sentences text =
     filter (\<lambda>s. s \<noteq> []) (map strip (split_scan False None text []))"

definition make_chunk :: "(str \<Rightarrow> str) \<Rightarrow> LegalDocument \<Rightarrow> str \<Rightarrow> int \<Rightarrow> int \<Rightarrow> Chunk" where
  "make_chunk lower doc text idx tot =
     \<lparr>chunk_id = lower (replace_char (ord CHR '' '') (ord CHR ''_'')
          (LegalDocument.act_name doc @ lit ''_'' @ str_opt (LegalDocument.section_number doc)
             @ lit ''_'' @ str_int idx)),
      content = text,
      chunk_index = idx,
      total_chunks = tot,
      act_name = LegalDocument.act_name doc,
      act_year = LegalDocument.act_year doc,
      chapter' = LegalDocument.chapter' doc,
      section_number = LegalDocument.section_number doc,
      section_title = LegalDocument.section_title doc,
      doc_type = LegalDocument.doc_type doc,
      tags = LegalDocument.tags doc,
      source_file = LegalDocument.source_file doc\<rparr>"

text \<open>
  The backtrack for overlap: the loop over \<open>reversed(current_chunk_sentences)\<close>, with
  its state \<open>(overlap_text, overlap_count)\<close>. It stops at the first sentence that
  would bring the count to \<open>overlap_tokens\<close> or more.
\<close>

fun overlap_loop :: "LegalChunker \<Rightarrow> str list \<Rightarrow> str \<times> int \<Rightarrow> str \<times> int" where
  "overlap_loop ch [] (overlap_text, overlap_count) = (overlap_text, overlap_count)"
| "overlap_loop ch (sent # rest) (overlap_text, overlap_count) =
     (if overlap_count + count_tokens ch sent < overlap_tokens ch
      then overlap_loop ch rest (sent @ lit '' '' @ overlap_text, overlap_count + count_tokens ch sent)
      else (overlap_text, overlap_count))"

definition overlap_of :: "LegalChunker \<Rightarrow> str list \<Rightarrow> str" where
  "overlap_of ch current_chunk_sentences =
     fst (overlap_loop ch (rev current_chunk_sentences) ([], 0))"

text \<open>
  The \<open>while\<close> loop over the sentences. Its state is
  \<open>(chunks, current_chunk_sentences, current_token_count, chunk_index)\<close>.
\<close>

fun chunk_loop ::
  "(str \<Rightarrow> str) \<Rightarrow> LegalChunker \<Rightarrow> LegalDocument \<Rightarrow> str \<Rightarrow> int \<Rightarrow> str list
     \<Rightarrow> Chunk list \<times> str list \<times> int \<times> int \<Rightarrow> Chunk list \<times> str list \<times> int \<times> int" where
  "chunk_loop lower ch doc section_header header_tokens [] st = st"
| "chunk_loop lower ch doc section_header header_tokens (sentence # rest) (chunks, cur, cnt, idx) =
     (let sentence_tokens = count_tokens ch sentence in
      if cnt + sentence_tokens > max_tokens ch \<and> cur \<noteq> []
      then
        let chunk_text = section_header @ join (lit '' '') cur;
            chunks' = chunks @ [make_chunk lower doc chunk_text idx (- 1)];
            overlap_text = overlap_of ch cur;
            cur' = (if overlap_text \<noteq> [] then [overlap_text] else []);
            cnt' = header_tokens + count_tokens ch overlap_text
        in chunk_loop lower ch doc section_header header_tokens rest
             (chunks', cur' @ [sentence], cnt' + sentence_tokens, idx + 1)
      else chunk_loop lower ch doc section_header header_tokens rest
             (chunks, cur @ [sentence], cnt + sentence_tokens, idx))"

definition chunk_document :: "(str \<Rightarrow> str) \<Rightarrow> LegalChunker \<Rightarrow> LegalDocument \<Rightarrow> Chunk list" where
  "chunk_document lower ch doc =
     (let section_header = build_section_header doc;
          header_tokens = count_tokens ch section_header;
          content_tokens = count_tokens ch (LegalDocument.content doc)
      in
      if content_tokens \<le> max_tokens ch
      then [make_chunk lower doc (LegalDocument.content doc) 0 1]
      else
        let sentences = split_into_sentences (LegalDocument.content doc);
            (chunks, cur, cnt, idx) =
              chunk_loop lower ch doc section_header header_tokens sentences ([], [], header_tokens, 0);
            chunks' = (if cur \<noteq> []
                       then chunks @ [make_chunk lower doc (section_header @ join (lit '' '') cur) idx (- 1)]
                       else chunks)
        in map (\<lambda>c. c\<lparr>total_chunks := int (length chunks')\<rparr>) chunks')"

subsection \<open>Example inputs\<close>

text \<open>
  \<open>ascii_lower\<close> is \<open>str.lower\<close> on a text of ASCII characters, which the examples'
  act names are.
\<close>

definition ascii_lower :: "str \<Rightarrow> str" where
  "ascii_lower s = map (\<lambda>c. if is_upper c then c + 32 else c) s"

text \<open>
  Two encoders to evaluate the chunker with. \<open>char_encoder\<close> gives one token per
  character. \<open>sample_encoder\<close> stands for tiktoken's \<open>cl100k_base\<close>, the encoding the
  constructor takes (line 43), on the texts that the two chunkers with small budgets
  below count: \<open>cl100k_pieces\<close> lists each of these texts with the tokens tiktoken cuts
  it into, and the encoder numbers these tokens (the chunker uses their number only);
  an unlisted text gets one token per character.
\<close>

definition char_encoder :: "str \<Rightarrow> nat list" where
  "char_encoder text = map nat text"

definition cl100k_pieces :: "(str \<times> str list) list" where
  "cl100k_pieces =
     [([], []),
      (lit ''[1]'' @ [newline, newline], [lit ''['', lit ''1'', lit '']'' @ [newline, newline]]),
      (lit ''A. B.'', [lit ''A'', lit ''.'', lit '' B'', lit ''.'']),
      (lit ''A. B. C.'', [lit ''A'', lit ''.'', lit '' B'', lit ''.'', lit '' C'', lit ''.'']),
      (lit ''A.'', [lit ''A'', lit ''.'']),
      (lit ''B.'', [lit ''B'', lit ''.'']),
      (lit ''C.'', [lit ''C'', lit ''.'']),
      (lit ''A. '', [lit ''A'', lit ''.'', lit '' '']),
      (lit ''B. '', [lit ''B'', lit ''.'', lit '' ''])]"

definition sample_encoder :: "str \<Rightarrow> nat list" where
  "sample_encoder text =
     (case map_of cl100k_pieces text of
        Some pieces \<Rightarrow> [0..<length pieces]
      | None \<Rightarrow> char_encoder text)"

definition default_chunker :: LegalChunker where
  "default_chunker = \<lparr>max_tokens = 512, overlap_tokens = 64, encoder = char_encoder\<rparr>"

definition small_chunker :: LegalChunker where
  "small_chunker = \<lparr>max_tokens = 3, overlap_tokens = 1, encoder = sample_encoder\<rparr>"

definition it_act_doc :: LegalDocument where
  "it_act_doc =
     \<lparr>LegalDocument.content = lit ''Whoever hacks shall be punished.'',
      source_file = lit ''it_act.pdf'',
      act_name = lit ''IT Act'',
      act_year = Some 2000,
      chapter' = None,
      section_number = Some (lit ''66''),
      section_title = None,
      page_number = None,
      doc_type = lit ''statute'',
      tags = []\<rparr>"

definition two_sentence_doc :: LegalDocument where
  "two_sentence_doc =
     \<lparr>LegalDocument.content = lit ''A. B.'',
      source_file = lit ''1.pdf'',
      act_name = lit ''1'',
      act_year = None,
      chapter' = None,
      section_number = None,
      section_title = None,
      page_number = None,
      doc_type = lit ''statute'',
      tags = []\<rparr>"

subsection \<open>The sentence groups of the chunks\<close>

text \<open>
  Line 91 of the chunker: the sentence list a new chunk starts with, the overlap text as
  its one element, or no element when the overlap text is empty.
\<close>

definition overlap_list :: "LegalChunker \<Rightarrow> str list \<Rightarrow> str list" where
  "overlap_list ch cur = (if overlap_of ch cur \<noteq> [] then [overlap_of ch cur] else [])"

text \<open>
  For the proofs about the sentence loop: the same loop, keeping for every chunk its
  overlap prefix and the group of sentences appended to it, instead of the chunk. Its
  state is \<open>(closed, ov, grp, cnt)\<close>: the closed chunks, the overlap prefix and the
  group of the current chunk, and the token count. \<open>chunks_of\<close> builds the chunks
  from the closed pairs; \<open>chunk_loop_groups\<close> below proves that the two loops agree.
\<close>

fun group_loop ::
  "LegalChunker \<Rightarrow> int \<Rightarrow> str list
     \<Rightarrow> (str list \<times> str list) list \<times> str list \<times> str list \<times> int
     \<Rightarrow> (str list \<times> str list) list \<times> str list \<times> str list \<times> int" where
  "group_loop ch header_tokens [] st = st"
| "group_loop ch header_tokens (sentence # rest) (closed, ov, grp, cnt) =
     (if cnt + count_tokens ch sentence > max_tokens ch \<and> ov @ grp \<noteq> []
      then group_loop ch header_tokens rest
             (closed @ [(ov, grp)], overlap_list ch (ov @ grp), [sentence],
              header_tokens + count_tokens ch (overlap_of ch (ov @ grp)) + count_tokens ch sentence)
      else group_loop ch header_tokens rest (closed, ov, grp @ [sentence], cnt + count_tokens ch sentence))"

definition chunks_of :: "(str \<Rightarrow> str) \<Rightarrow> LegalDocument \<Rightarrow> str \<Rightarrow> (str list \<times> str list) list \<Rightarrow> Chunk list" where
  "chunks_of lower doc h closed =
     map (\<lambda>(i, (ov, grp)). make_chunk lower doc (h @ join (lit '' '') (ov @ grp)) (int i) (- 1)) (enumerate 0 closed)"

text \<open>Two invariants of the loop: no closed group is empty, and each overlap prefix is
  the overlap of the chunk before it.\<close>

definition groups_ok :: "(str list \<times> str list) list \<Rightarrow> str list \<Rightarrow> str list \<Rightarrow> bool" where
  "groups_ok closed ov grp = (list_all (\<lambda>(o', g). g \<noteq> []) closed \<and> (grp = [] \<longrightarrow> ov = [] \<and> closed = []))"

definition chain_ok :: "LegalChunker \<Rightarrow> (str list \<times> str list) list \<Rightarrow> bool" where
  "chain_ok ch ps = ((ps \<noteq> [] \<longrightarrow> fst (hd ps) = [])
     \<and> (\<forall>i. Suc i < length ps \<longrightarrow> fst (ps ! Suc i) = overlap_list ch (fst (ps ! i) @ snd (ps ! i))))"

text \<open>The sentences that occur in both of two chunk bodies.\<close>

definition shared_sentences :: "str list \<Rightarrow> str \<Rightarrow> str \<Rightarrow> str list" where
  "shared_sentences sentences body1 body2 =
     filter (\<lambda>s. contains body1 s \<and> contains body2 s) sentences"

definition overlap_chunker :: LegalChunker where
  "overlap_chunker = \<lparr>max_tokens = 5, overlap_tokens = 3, encoder = sample_encoder\<rparr>"

definition three_sentence_doc :: LegalDocument where
  "three_sentence_doc = two_sentence_doc\<lparr>LegalDocument.content := lit ''A. B. C.''\<rparr>"

section \<open>Ingestion: the embedding cache (src/ingestion/run_ingestion.py)\<close>

text \<open>
  An exception raised by a remote call, with its message; \<open>TypeError\<close> is what
  Python raises on \<open>raise None\<close>.
\<close>

datatype error = RemoteError str | TypeError

text \<open>
  The cache is a dict from the hash of a text to its embedding. The hash is
  \<open>hashlib.sha256(text.encode()).hexdigest()\<close>, a library function: it is the
  parameter \<open>text_hash\<close> of every definition below. The code never looks inside an
  embedding, so the type \<open>'v\<close> of the vectors is a parameter too.

  The code has no function for a lookup or a store: \<open>cache_lookup\<close> is lines 51 to 53
  (\<open>h = _text_hash(text)\<close>, \<open>h in cache\<close>, \<open>cache[h]\<close>), and \<open>cache_store\<close> is
  line 63 (\<open>cache[_text_hash(text)] = emb\<close>).
\<close>

definition cache_lookup :: "(str \<Rightarrow> str) \<Rightarrow> (str \<rightharpoonup> 'v) \<Rightarrow> str \<Rightarrow> 'v option" where
  "cache_lookup text_hash cache text = cache (text_hash text)"

definition cache_store :: "(str \<Rightarrow> str) \<Rightarrow> (str \<rightharpoonup> 'v) \<Rightarrow> str \<Rightarrow> 'v \<Rightarrow> (str \<rightharpoonup> 'v)" where
  "cache_store text_hash cache text emb = cache(text_hash text \<mapsto> emb)"

text \<open>
  The first loop of \<open>embed_with_cache\<close>, over \<open>enumerate(texts)\<close>, with its state
  \<open>(results, miss_indices, miss_texts)\<close>.
\<close>

fun scan_texts ::
  "(str \<Rightarrow> str) \<Rightarrow> (str \<rightharpoonup> 'v) \<Rightarrow> (nat \<times> str) list
     \<Rightarrow> 'v option list \<times> nat list \<times> str list \<Rightarrow> 'v option list \<times> nat list \<times> str list" where
  "scan_texts text_hash cache [] st = st"
| "scan_texts text_hash cache ((i, text) # rest) (results, miss_indices, miss_texts) =
     (case cache_lookup text_hash cache text of
        Some emb \<Rightarrow> scan_texts text_hash cache rest (results[i := Some emb], miss_indices, miss_texts)
      | None \<Rightarrow> scan_texts text_hash cache rest (results, miss_indices @ [i], miss_texts @ [text]))"

text \<open>
  The second loop, over \<open>zip(miss_indices, miss_texts, new_embeddings)\<close>, with its
  state: the cache, which it updates in place, and \<open>results\<close>.
\<close>

fun store_new ::
  "(str \<Rightarrow> str) \<Rightarrow> (nat \<times> str \<times> 'v) list
     \<Rightarrow> (str \<rightharpoonup> 'v) \<times> 'v option list \<Rightarrow> (str \<rightharpoonup> 'v) \<times> 'v option list" where
  "store_new text_hash [] st = st"
| "store_new text_hash ((idx, text, emb) # rest) (cache, results) =
     store_new text_hash rest (cache_store text_hash cache text emb, results[idx := Some emb])"

text \<open>
  \<open>embed_with_cache texts embedder cache\<close>. The embedder is the function
  \<open>embed_texts\<close>: it returns the embeddings of a list of texts, or raises. The result
  is the exception, or the returned list (an entry left at \<open>None\<close> stays \<open>None\<close>), the
  cache after the call, and the calls of \<open>embedder.embed_texts\<close> that were made, each
  with its argument.
\<close>

definition embed_with_cache ::
  "(str \<Rightarrow> str) \<Rightarrow> str list \<Rightarrow> (str list \<Rightarrow> error + 'v list) \<Rightarrow> (str \<rightharpoonup> 'v)
     \<Rightarrow> error + ('v option list \<times> (str \<rightharpoonup> 'v) \<times> str list list)" where
  "embed_with_cache text_hash texts embed_texts cache =
     (let (results, miss_indices, miss_texts) =
            scan_texts text_hash cache (enumerate 0 texts) (replicate (length texts) None, [], [])
      in
      if miss_texts \<noteq> []
      then
        (case embed_texts miss_texts of
           Inl e \<Rightarrow> Inl e
         | Inr new_embeddings \<Rightarrow>
             let (cache', results') =
                   store_new text_hash (zip miss_indices (zip miss_texts new_embeddings)) (cache, results)
             in Inr (results', cache', [miss_texts]))
      else Inr (results, cache, []))"

section \<open>Properties of the chunker\<close>

lemma str_nat_10 [simp]: "n < 10 \<Longrightarrow> str_nat n = [48 + int n]"
  by (subst str_nat.simps) simp

lemma str_nat_step: "\<not> n < 10 \<Longrightarrow> str_nat n = str_nat (n div 10) @ [48 + int (n mod 10)]"
  by (subst str_nat.simps) simp

lemma count_tokens_nonneg: "0 \<le> count_tokens ch text"
  by (simp add: count_tokens_def)

lemma build_section_header_nonempty: "build_section_header doc \<noteq> []"
  by (simp add: build_section_header_def Let_def)

lemma chunk_document_fits:
  "count_tokens ch (LegalDocument.content doc) \<le> max_tokens ch
     \<Longrightarrow> chunk_document lower ch doc = [make_chunk lower doc (LegalDocument.content doc) 0 1]"
  by (simp add: chunk_document_def Let_def)


text \<open>
  Claim C1 asks that a section that fits the budget gives one chunk whose content is the
  contextual header followed by the section's content. The code returns one chunk, and
  its content is the section's content alone: the header is left out. Here is the
  code at a section of the IT Act, with the header the claim expects.
\<close>

theorem chunk_document_fitting_section_has_no_header:
  "map Chunk.content (chunk_document lower default_chunker it_act_doc)
     = [lit ''Whoever hacks shall be punished.'']
   \<and> build_section_header it_act_doc @ LegalDocument.content it_act_doc
     = lit ''[IT Act, 2000] | Section 66'' @ [newline, newline] @ lit ''Whoever hacks shall be punished.''"
proof -
  have fits: "count_tokens default_chunker (LegalDocument.content it_act_doc)
                \<le> max_tokens default_chunker"
    by (simp add: count_tokens_def default_chunker_def it_act_doc_def char_encoder_def lit_def)
  have c: "map Chunk.content (chunk_document lower default_chunker it_act_doc)
             = [lit ''Whoever hacks shall be punished.'']"
    by (simp add: chunk_document_fits [OF fits] make_chunk_def) (simp add: it_act_doc_def)
  have y: "str_int 2000 = lit ''2000''"
    by code_simp
  have h: "build_section_header it_act_doc = lit ''[IT Act, 2000] | Section 66'' @ [newline, newline]"
    by (simp add: build_section_header_def it_act_doc_def truthy_def str_opt_def y) (simp add: lit_def)
  show ?thesis using c h by (simp add: it_act_doc_def)
qed




lemma chunk_loop_indices:
  "chunk_loop lower ch doc h ht ss (chunks, cur, cnt, idx) = (chunks', cur', cnt', idx')
   \<Longrightarrow> map chunk_index chunks = map int [0..<length chunks]
   \<Longrightarrow> idx = int (length chunks)
   \<Longrightarrow> map chunk_index chunks' = map int [0..<length chunks'] \<and> idx' = int (length chunks')"
proof (induction ss arbitrary: chunks cur cnt idx)
  case Nil
  then show ?case by auto
next
  case (Cons s ss)
  show ?case
  proof (cases "cnt + count_tokens ch s > max_tokens ch \<and> cur \<noteq> []")
    case True
    let ?c = "make_chunk lower doc (h @ join (lit '' '') cur) idx (- 1)"
    have step: "chunk_loop lower ch doc h ht ss
           (chunks @ [?c],
            (if overlap_of ch cur \<noteq> [] then [overlap_of ch cur] else []) @ [s],
            ht + count_tokens ch (overlap_of ch cur) + count_tokens ch s, idx + 1)
          = (chunks', cur', cnt', idx')"
      using Cons.prems(1) True by (simp add: Let_def)
    have i1: "map chunk_index (chunks @ [?c]) = map int [0..<length (chunks @ [?c])]"
      using Cons.prems(2,3) by (simp add: make_chunk_def)
    have i2: "idx + 1 = int (length (chunks @ [?c]))"
      using Cons.prems(3) by simp
    show ?thesis by (rule Cons.IH [OF step i1 i2])
  next
    case False
    have step: "chunk_loop lower ch doc h ht ss (chunks, cur @ [s], cnt + count_tokens ch s, idx)
          = (chunks', cur', cnt', idx')"
      using Cons.prems(1) False by (auto simp: Let_def)
    show ?thesis by (rule Cons.IH [OF step Cons.prems(2,3)])
  qed
qed

text \<open>
  Claim C6: in the chunks of one section, \<open>chunk_index\<close> counts from 0 without a
  gap, \<open>total_chunks\<close> is the number of chunks in every chunk, and so
  \<open>0 \<le> chunk_index < total_chunks\<close> in every chunk.
\<close>

theorem chunk_document_indices:
  "map chunk_index (chunk_document lower ch doc) = map int [0..<length (chunk_document lower ch doc)]
   \<and> map total_chunks (chunk_document lower ch doc)
       = replicate (length (chunk_document lower ch doc)) (int (length (chunk_document lower ch doc)))
   \<and> list_all (\<lambda>c. 0 \<le> chunk_index c \<and> chunk_index c < total_chunks c) (chunk_document lower ch doc)"
proof (cases "count_tokens ch (LegalDocument.content doc) \<le> max_tokens ch")
  case True
  then show ?thesis by (simp add: chunk_document_fits make_chunk_def)
next
  case False
  let ?h = "build_section_header doc"
  let ?ht = "count_tokens ch ?h"
  obtain chunks cur cnt idx where
    loop: "chunk_loop lower ch doc ?h ?ht (split_into_sentences (LegalDocument.content doc)) ([], [], ?ht, 0)
             = (chunks, cur, cnt, idx)"
    by (cases "chunk_loop lower ch doc ?h ?ht (split_into_sentences (LegalDocument.content doc)) ([], [], ?ht, 0)") auto
  have inv: "map chunk_index chunks = map int [0..<length chunks] \<and> idx = int (length chunks)"
    using chunk_loop_indices [OF loop] by simp
  define chunks' where "chunks' = (if cur \<noteq> [] then chunks @ [make_chunk lower doc (?h @ join (lit '' '') cur) idx (- 1)] else chunks)"
  have idx': "map chunk_index chunks' = map int [0..<length chunks']"
    using inv by (simp add: chunks'_def make_chunk_def)
  have res: "chunk_document lower ch doc = map (\<lambda>c. c\<lparr>total_chunks := int (length chunks')\<rparr>) chunks'"
    using False loop by (simp add: chunk_document_def Let_def chunks'_def)
  have a: "map chunk_index (chunk_document lower ch doc) = map int [0..<length (chunk_document lower ch doc)]"
    using idx' by (simp add: res comp_def)
  have b: "map total_chunks (chunk_document lower ch doc)
       = replicate (length (chunk_document lower ch doc)) (int (length (chunk_document lower ch doc)))"
    by (simp add: res comp_def map_replicate_const)
  have c: "list_all (\<lambda>c. 0 \<le> chunk_index c \<and> chunk_index c < total_chunks c) (chunk_document lower ch doc)"
    unfolding list_all_length
  proof (intro allI impI)
    fix n assume n: "n < length (chunk_document lower ch doc)"
    have "chunk_index (chunk_document lower ch doc ! n) = int n"
      using arg_cong [OF a, of "\<lambda>l. l ! n"] n by simp
    moreover have "total_chunks (chunk_document lower ch doc ! n) = int (length (chunk_document lower ch doc))"
      using arg_cong [OF b, of "\<lambda>l. l ! n"] n by simp
    ultimately show "0 \<le> chunk_index (chunk_document lower ch doc ! n)
        \<and> chunk_index (chunk_document lower ch doc ! n) < total_chunks (chunk_document lower ch doc ! n)"
      using n by simp
  qed
  show ?thesis using a b c by blast
qed

lemma chunks_of_snoc:
  "chunks_of lower doc h (closed @ [(ov, grp)])
     = chunks_of lower doc h closed @ [make_chunk lower doc (h @ join (lit '' '') (ov @ grp)) (int (length closed)) (- 1)]"
  by (simp add: chunks_of_def enumerate_append_eq)

lemma length_chunks_of [simp]: "length (chunks_of lower doc h closed) = length closed"
  by (simp add: chunks_of_def)

lemma content_chunks_of:
  "map Chunk.content (chunks_of lower doc h closed) = map (\<lambda>(ov, grp). h @ join (lit '' '') (ov @ grp)) closed"
proof (induction closed rule: rev_induct)
  case Nil
  show ?case by (simp add: chunks_of_def)
next
  case (snoc x xs)
  obtain ov grp where x: "x = (ov, grp)" by (cases x)
  show ?case using snoc.IH by (simp add: x chunks_of_snoc make_chunk_def)
qed

lemma chunk_loop_groups:
  "chunk_loop lower ch doc h ht ss (chunks_of lower doc h closed, ov @ grp, cnt, int (length closed))
     = (case group_loop ch ht ss (closed, ov, grp, cnt) of
          (closed', ov', grp', cnt') \<Rightarrow> (chunks_of lower doc h closed', ov' @ grp', cnt', int (length closed')))"
proof (induction ss arbitrary: closed ov grp cnt)
  case Nil
  show ?case by simp
next
  case (Cons s ss)
  show ?case
  proof (cases "cnt + count_tokens ch s > max_tokens ch \<and> ov @ grp \<noteq> []")
    case True
    have "chunk_loop lower ch doc h ht (s # ss) (chunks_of lower doc h closed, ov @ grp, cnt, int (length closed))
        = chunk_loop lower ch doc h ht ss
            (chunks_of lower doc h (closed @ [(ov, grp)]), overlap_list ch (ov @ grp) @ [s],
             ht + count_tokens ch (overlap_of ch (ov @ grp)) + count_tokens ch s,
             int (length (closed @ [(ov, grp)])))"
      using True by (simp add: Let_def chunks_of_snoc overlap_list_def add.commute)
    also have "\<dots> = (case group_loop ch ht ss
             (closed @ [(ov, grp)], overlap_list ch (ov @ grp), [s],
              ht + count_tokens ch (overlap_of ch (ov @ grp)) + count_tokens ch s) of
          (closed', ov', grp', cnt') \<Rightarrow> (chunks_of lower doc h closed', ov' @ grp', cnt', int (length closed')))"
      by (rule Cons.IH)
    finally show ?thesis using True by simp
  next
    case False
    have "chunk_loop lower ch doc h ht (s # ss) (chunks_of lower doc h closed, ov @ grp, cnt, int (length closed))
        = chunk_loop lower ch doc h ht ss
            (chunks_of lower doc h closed, ov @ (grp @ [s]), cnt + count_tokens ch s, int (length closed))"
      using False by (auto simp: Let_def)
    also have "\<dots> = (case group_loop ch ht ss (closed, ov, grp @ [s], cnt + count_tokens ch s) of
          (closed', ov', grp', cnt') \<Rightarrow> (chunks_of lower doc h closed', ov' @ grp', cnt', int (length closed')))"
      by (rule Cons.IH)
    finally show ?thesis using False by auto
  qed
qed

lemma group_loop_concat:
  "group_loop ch ht ss (closed, ov, grp, cnt) = (closed', ov', grp', cnt')
   \<Longrightarrow> concat (map snd closed') @ grp' = concat (map snd closed) @ grp @ ss"
proof (induction ss arbitrary: closed ov grp cnt)
  case Nil
  then show ?case by auto
next
  case (Cons s ss)
  show ?case
  proof (cases "cnt + count_tokens ch s > max_tokens ch \<and> ov @ grp \<noteq> []")
    case True
    with Cons.prems have "group_loop ch ht ss
             (closed @ [(ov, grp)], overlap_list ch (ov @ grp), [s],
              ht + count_tokens ch (overlap_of ch (ov @ grp)) + count_tokens ch s) = (closed', ov', grp', cnt')"
      by simp
    from Cons.IH [OF this] show ?thesis by simp
  next
    case False
    with Cons.prems have "group_loop ch ht ss (closed, ov, grp @ [s], cnt + count_tokens ch s)
        = (closed', ov', grp', cnt')"
      by auto
    from Cons.IH [OF this] show ?thesis by simp
  qed
qed

lemma group_loop_nonempty:
  "group_loop ch ht ss (closed, ov, grp, cnt) = (closed', ov', grp', cnt')
   \<Longrightarrow> groups_ok closed ov grp \<Longrightarrow> groups_ok closed' ov' grp'"
proof (induction ss arbitrary: closed ov grp cnt)
  case Nil
  then show ?case by auto
next
  case (Cons s ss)
  show ?case
  proof (cases "cnt + count_tokens ch s > max_tokens ch \<and> ov @ grp \<noteq> []")
    case True
    with Cons.prems have step: "group_loop ch ht ss
             (closed @ [(ov, grp)], overlap_list ch (ov @ grp), [s],
              ht + count_tokens ch (overlap_of ch (ov @ grp)) + count_tokens ch s) = (closed', ov', grp', cnt')"
      by simp
    have "grp \<noteq> []" using True Cons.prems(2) by (auto simp: groups_ok_def)
    then have "groups_ok (closed @ [(ov, grp)]) (overlap_list ch (ov @ grp)) [s]"
      using Cons.prems(2) by (simp add: groups_ok_def)
    from Cons.IH [OF step this] show ?thesis .
  next
    case False
    with Cons.prems have step: "group_loop ch ht ss (closed, ov, grp @ [s], cnt + count_tokens ch s)
        = (closed', ov', grp', cnt')"
      by auto
    have "groups_ok closed ov (grp @ [s])"
      using Cons.prems(2) by (simp add: groups_ok_def)
    from Cons.IH [OF step this] show ?thesis .
  qed
qed

lemma chain_ok_grow:
  assumes "chain_ok ch (closed @ [(ov, grp)])"
  shows "chain_ok ch (closed @ [(ov, grp @ [s])])"
proof -
  let ?L = "closed @ [(ov, grp)]" and ?M = "closed @ [(ov, grp @ [s])]"
  have hd: "fst (hd ?M) = []"
    using assms by (cases closed) (simp_all add: chain_ok_def)
  have step: "fst (?M ! Suc i) = overlap_list ch (fst (?M ! i) @ snd (?M ! i))"
    if i: "Suc i < length ?M" for i
  proof -
    have old: "fst (?L ! Suc i) = overlap_list ch (fst (?L ! i) @ snd (?L ! i))"
      using assms i by (simp add: chain_ok_def)
    have "i < length closed" using i by simp
    then have "?M ! i = ?L ! i" by (simp add: nth_append)
    moreover have "fst (?M ! Suc i) = fst (?L ! Suc i)"
      using \<open>i < length closed\<close> by (cases "Suc i = length closed") (auto simp: nth_append)
    ultimately show ?thesis using old by simp
  qed
  show ?thesis using hd step by (simp add: chain_ok_def)
qed

lemma chain_ok_close:
  assumes "chain_ok ch (closed @ [(ov, grp)])"
  shows "chain_ok ch ((closed @ [(ov, grp)]) @ [(overlap_list ch (ov @ grp), [s])])"
proof -
  let ?L = "closed @ [(ov, grp)]"
  let ?M = "?L @ [(overlap_list ch (ov @ grp), [s])]"
  have hd: "fst (hd ?M) = []"
    using assms by (cases closed) (simp_all add: chain_ok_def)
  have step: "fst (?M ! Suc i) = overlap_list ch (fst (?M ! i) @ snd (?M ! i))"
    if i: "Suc i < length ?M" for i
  proof (cases "Suc i < length ?L")
    case True
    have old: "fst (?L ! Suc i) = overlap_list ch (fst (?L ! i) @ snd (?L ! i))"
      using assms True by (simp add: chain_ok_def)
    have "?M ! i = ?L ! i" using True by (simp add: nth_append)
    moreover have "?M ! Suc i = ?L ! Suc i" using True by (simp add: nth_append)
    ultimately show ?thesis using old by simp
  next
    case False
    then have e: "i = length closed" using i by simp
    have "?M ! i = (ov, grp)" by (simp add: e nth_append)
    moreover have "?M ! Suc i = (overlap_list ch (ov @ grp), [s])" by (simp add: e nth_append)
    ultimately show ?thesis by simp
  qed
  show ?thesis using hd step by (simp add: chain_ok_def)
qed

lemma group_loop_chain:
  "group_loop ch ht ss (closed, ov, grp, cnt) = (closed', ov', grp', cnt')
   \<Longrightarrow> chain_ok ch (closed @ [(ov, grp)]) \<Longrightarrow> chain_ok ch (closed' @ [(ov', grp')])"
proof (induction ss arbitrary: closed ov grp cnt)
  case Nil
  then show ?case by auto
next
  case (Cons s ss)
  show ?case
  proof (cases "cnt + count_tokens ch s > max_tokens ch \<and> ov @ grp \<noteq> []")
    case True
    with Cons.prems have step: "group_loop ch ht ss
             (closed @ [(ov, grp)], overlap_list ch (ov @ grp), [s],
              ht + count_tokens ch (overlap_of ch (ov @ grp)) + count_tokens ch s) = (closed', ov', grp', cnt')"
      by simp
    from Cons.IH [OF step chain_ok_close [OF Cons.prems(2)]] show ?thesis .
  next
    case False
    with Cons.prems have step: "group_loop ch ht ss (closed, ov, grp @ [s], cnt + count_tokens ch s)
        = (closed', ov', grp', cnt')"
      by auto
    from Cons.IH [OF step chain_ok_grow [OF Cons.prems(2)]] show ?thesis .
  qed
qed

lemma overlap_loop_take:
  "\<exists>k\<le>length xs.
      overlap_loop ch xs (t, c)
        = (concat (map (\<lambda>s. s @ lit '' '') (rev (take k xs))) @ t,
           c + sum_list (map (count_tokens ch) (take k xs)))
    \<and> (0 < k \<longrightarrow> c + sum_list (map (count_tokens ch) (take k xs)) < overlap_tokens ch)
    \<and> (k < length xs \<longrightarrow> \<not> c + sum_list (map (count_tokens ch) (take (Suc k) xs)) < overlap_tokens ch)"
proof (induction xs arbitrary: t c)
  case Nil
  show ?case by simp
next
  case (Cons x xs)
  show ?case
  proof (cases "c + count_tokens ch x < overlap_tokens ch")
    case True
    from Cons.IH [of "x @ lit '' '' @ t" "c + count_tokens ch x"]
    obtain k where k: "k \<le> length xs"
      and r: "overlap_loop ch xs (x @ lit '' '' @ t, c + count_tokens ch x)
        = (concat (map (\<lambda>s. s @ lit '' '') (rev (take k xs))) @ x @ lit '' '' @ t,
           c + count_tokens ch x + sum_list (map (count_tokens ch) (take k xs)))"
      and lt: "0 < k \<longrightarrow> c + count_tokens ch x + sum_list (map (count_tokens ch) (take k xs)) < overlap_tokens ch"
      and ge: "k < length xs \<longrightarrow> \<not> c + count_tokens ch x + sum_list (map (count_tokens ch) (take (Suc k) xs)) < overlap_tokens ch"
      by blast
    have a: "Suc k \<le> length (x # xs)" using k by simp
    have b: "overlap_loop ch (x # xs) (t, c)
        = (concat (map (\<lambda>s. s @ lit '' '') (rev (take (Suc k) (x # xs)))) @ t,
           c + sum_list (map (count_tokens ch) (take (Suc k) (x # xs))))"
      using True r by (simp add: add.assoc)
    have c: "0 < Suc k \<longrightarrow> c + sum_list (map (count_tokens ch) (take (Suc k) (x # xs))) < overlap_tokens ch"
      using lt True by (cases k) (simp_all add: add.assoc)
    have d: "Suc k < length (x # xs) \<longrightarrow>
        \<not> c + sum_list (map (count_tokens ch) (take (Suc (Suc k)) (x # xs))) < overlap_tokens ch"
      using ge by (simp add: add.assoc)
    show ?thesis using a b c d by blast
  next
    case False
    have "overlap_loop ch (x # xs) (t, c)
        = (concat (map (\<lambda>s. s @ lit '' '') (rev (take 0 (x # xs)))) @ t,
           c + sum_list (map (count_tokens ch) (take 0 (x # xs))))"
      using False by simp
    moreover have "\<not> c + sum_list (map (count_tokens ch) (take (Suc 0) (x # xs))) < overlap_tokens ch"
      using False by simp
    ultimately show ?thesis by (intro exI [of _ 0]) simp
  qed
qed

lemma sum_tokens_nonneg: "0 \<le> sum_list (map (count_tokens ch) xs)"
  by (induction xs) (simp_all add: count_tokens_nonneg)

lemma overlap_of_suffix:
  assumes "cur \<noteq> []"
  shows "\<exists>j\<le>length cur.
      overlap_of ch cur = concat (map (\<lambda>s. s @ lit '' '') (drop j cur))
    \<and> (j < length cur \<longleftrightarrow> count_tokens ch (last cur) < overlap_tokens ch)
    \<and> (j < length cur \<longrightarrow> sum_list (map (count_tokens ch) (drop j cur)) < overlap_tokens ch)
    \<and> (0 < j \<longrightarrow> \<not> sum_list (map (count_tokens ch) (drop (j - 1) cur)) < overlap_tokens ch)"
proof -
  from overlap_loop_take [of "rev cur" ch "[]" 0]
  obtain k where k0: "k \<le> length (rev cur)"
    and r0: "overlap_loop ch (rev cur) ([], 0)
        = (concat (map (\<lambda>s. s @ lit '' '') (rev (take k (rev cur)))) @ [],
           0 + sum_list (map (count_tokens ch) (take k (rev cur))))"
    and lt0: "0 < k \<longrightarrow> 0 + sum_list (map (count_tokens ch) (take k (rev cur))) < overlap_tokens ch"
    and ge0: "k < length (rev cur) \<longrightarrow>
        \<not> 0 + sum_list (map (count_tokens ch) (take (Suc k) (rev cur))) < overlap_tokens ch"
    by blast
  have k: "k \<le> length cur" using k0 by simp
  have r: "overlap_loop ch (rev cur) ([], 0)
        = (concat (map (\<lambda>s. s @ lit '' '') (rev (take k (rev cur)))),
           sum_list (map (count_tokens ch) (take k (rev cur))))"
    using r0 by simp
  have lt: "0 < k \<longrightarrow> sum_list (map (count_tokens ch) (take k (rev cur))) < overlap_tokens ch"
    using lt0 by simp
  have ge: "k < length cur \<longrightarrow> \<not> sum_list (map (count_tokens ch) (take (Suc k) (rev cur))) < overlap_tokens ch"
    using ge0 by simp
  let ?j = "length cur - k"
  have tk: "rev (take n (rev cur)) = drop (length cur - n) cur" for n
    by (simp add: rev_take)
  have st: "sum_list (map (count_tokens ch) (take n (rev cur)))
      = sum_list (map (count_tokens ch) (drop (length cur - n) cur))" for n
  proof -
    have "sum_list (map (count_tokens ch) (take n (rev cur)))
        = sum_list (rev (map (count_tokens ch) (take n (rev cur))))"
      by simp
    also have "\<dots> = sum_list (map (count_tokens ch) (rev (take n (rev cur))))"
      by (simp only: rev_map)
    also have "\<dots> = sum_list (map (count_tokens ch) (drop (length cur - n) cur))"
      by (simp only: tk)
    finally show ?thesis .
  qed
  have a: "overlap_of ch cur = concat (map (\<lambda>s. s @ lit '' '') (drop ?j cur))"
    by (simp only: overlap_of_def r tk fst_conv)
  have c: "?j < length cur \<longrightarrow> sum_list (map (count_tokens ch) (drop ?j cur)) < overlap_tokens ch"
  proof
    assume "?j < length cur"
    then have "0 < k" by simp
    with lt have "sum_list (map (count_tokens ch) (take k (rev cur))) < overlap_tokens ch"
      by blast
    then show "sum_list (map (count_tokens ch) (drop ?j cur)) < overlap_tokens ch"
      unfolding st .
  qed
  have d: "0 < ?j \<longrightarrow> \<not> sum_list (map (count_tokens ch) (drop (?j - 1) cur)) < overlap_tokens ch"
  proof
    assume "0 < ?j"
    then have kl: "k < length cur" by simp
    with ge have "\<not> sum_list (map (count_tokens ch) (take (Suc k) (rev cur))) < overlap_tokens ch"
      by blast
    then have F: "\<not> sum_list (map (count_tokens ch) (drop (length cur - Suc k) cur)) < overlap_tokens ch"
      unfolding st .
    have eq: "?j - 1 = length cur - Suc k" by simp
    show "\<not> sum_list (map (count_tokens ch) (drop (?j - 1) cur)) < overlap_tokens ch"
      using F unfolding eq .
  qed
  have lastdrop: "drop (length cur - 1) cur = [last cur]"
  proof -
    have "drop (length (butlast cur)) (butlast cur @ [last cur]) = [last cur]" by simp
    then show ?thesis using assms by simp
  qed
  have b: "?j < length cur \<longleftrightarrow> count_tokens ch (last cur) < overlap_tokens ch"
  proof
    assume j: "?j < length cur"
    then have "length cur - 1 \<ge> ?j" by simp
    then obtain m where m: "length cur - 1 = ?j + m" using le_Suc_ex by blast
    have "m + ?j = length cur - 1" using m by simp
    then have "drop (m + ?j) cur = [last cur]" using lastdrop by simp
    then have e: "drop m (drop ?j cur) = [last cur]" by (simp only: drop_drop)
    have "sum_list (map (count_tokens ch) (drop ?j cur))
        = sum_list (map (count_tokens ch) (take m (drop ?j cur) @ drop m (drop ?j cur)))"
      by (simp only: append_take_drop_id)
    also have "\<dots> = sum_list (map (count_tokens ch) (take m (drop ?j cur))) + count_tokens ch (last cur)"
      unfolding e by simp
    finally have "sum_list (map (count_tokens ch) (drop ?j cur))
        = sum_list (map (count_tokens ch) (take m (drop ?j cur))) + count_tokens ch (last cur)" .
    then show "count_tokens ch (last cur) < overlap_tokens ch"
      using c j sum_tokens_nonneg [of ch "take m (drop ?j cur)"] by simp
  next
    assume l: "count_tokens ch (last cur) < overlap_tokens ch"
    show "?j < length cur"
    proof (rule ccontr)
      assume "\<not> ?j < length cur"
      then have "?j = length cur" using k by simp
      then have "0 < ?j" using assms by simp
      with d have "\<not> sum_list (map (count_tokens ch) (drop (?j - 1) cur)) < overlap_tokens ch" by blast
      then show False using l lastdrop \<open>?j = length cur\<close> by simp
    qed
  qed
  have le: "?j \<le> length cur" by simp
  show ?thesis
    by (rule exI [of _ ?j]) (intro conjI le a b c d)
qed

lemma is_prefix_append: "is_prefix xs (xs @ ys)"
  by (induction xs) simp_all

lemma contains_prefix: "is_prefix sub s \<Longrightarrow> contains s sub"
  by (cases s; cases sub) simp_all

lemma contains_append_right: "contains ys sub \<Longrightarrow> contains (xs @ ys) sub"
  by (induction xs) simp_all

lemma contains_mid: "contains (a @ s @ b) s"
  by (rule contains_append_right) (rule contains_prefix, rule is_prefix_append)

lemma contains_join: "s \<in> set xs \<Longrightarrow> contains (join sep xs) s"
proof (induction sep xs rule: join.induct)
  case (1 sep)
  then show ?case by simp
next
  case (2 sep x)
  then show ?case using contains_mid [of "[]" s "[]"] by simp
next
  case (3 sep x y ys)
  show ?case
  proof (cases "s = x")
    case True
    then show ?thesis using contains_mid [of "[]" x "sep @ join sep (y # ys)"] by simp
  next
    case False
    then have "s \<in> set (y # ys)" using 3(2) by simp
    then have "contains (join sep (y # ys)) s" by (rule 3(1))
    then have "contains ((x @ sep) @ join sep (y # ys)) s" by (rule contains_append_right)
    then show ?thesis by simp
  qed
qed

lemma join_overlap_first:
  "grp \<noteq> [] \<Longrightarrow> join sep ([x] @ grp) = x @ sep @ join sep grp"
  by (cases grp) simp_all

lemma concat_map_last:
  "xs \<noteq> [] \<Longrightarrow> concat (map f xs) = concat (map f (butlast xs)) @ f (last xs)"
  by (cases xs rule: rev_cases) simp_all

lemma overlap_carries_last:
  assumes "cur \<noteq> []"
  shows "if count_tokens ch (last cur) < overlap_tokens ch
         then (\<exists>pre. overlap_of ch cur = pre @ last cur @ lit '' '')
         else overlap_of ch cur = []"
proof -
  from overlap_of_suffix [OF assms, of ch]
  obtain j where j: "j \<le> length cur"
    and o: "overlap_of ch cur = concat (map (\<lambda>s. s @ lit '' '') (drop j cur))"
    and t: "j < length cur \<longleftrightarrow> count_tokens ch (last cur) < overlap_tokens ch"
    by blast
  show ?thesis
  proof (cases "count_tokens ch (last cur) < overlap_tokens ch")
    case True
    then have jl: "j < length cur" using t by simp
    then have ne: "drop j cur \<noteq> []" by simp
    have l: "last (drop j cur) = last cur" using jl by simp
    have "overlap_of ch cur
        = concat (map (\<lambda>s. s @ lit '' '') (butlast (drop j cur))) @ last cur @ lit '' ''"
      unfolding o using concat_map_last [OF ne, of "\<lambda>s. s @ lit '' ''"] l by simp
    then show ?thesis using True by auto
  next
    case False
    then have "j = length cur" using t j by simp
    then show ?thesis using False o by simp
  qed
qed

text \<open>
  What the overlap means for two consecutive chunks: \<open>ov @ grp\<close> is the sentence list
  of the closed chunk and \<open>grp'\<close> the group of the next one.
\<close>

lemma next_chunk_shares:
  assumes grp: "grp \<noteq> []" and grp': "grp' \<noteq> []"
  shows "if count_tokens ch (last grp) < overlap_tokens ch
         then contains (join (lit '' '') (ov @ grp)) (last grp)
            \<and> contains (join (lit '' '') (overlap_list ch (ov @ grp) @ grp')) (last grp)
         else overlap_list ch (ov @ grp) = []"
proof -
  have ne: "ov @ grp \<noteq> []" using grp by simp
  have l: "last (ov @ grp) = last grp" using grp by simp
  show ?thesis
  proof (cases "count_tokens ch (last grp) < overlap_tokens ch")
    case True
    from overlap_carries_last [OF ne, of ch] True l
    obtain pre where p: "overlap_of ch (ov @ grp) = pre @ last grp @ lit '' ''" by auto
    have sp: "lit '' '' \<noteq> []" by (simp add: lit_def)
    have one: "contains (join (lit '' '') (ov @ grp)) (last grp)"
      by (rule contains_join) (use grp in simp)
    have ol: "overlap_list ch (ov @ grp) = [pre @ last grp @ lit '' '']"
      using p sp by (simp add: overlap_list_def)
    have "join (lit '' '') (overlap_list ch (ov @ grp) @ grp')
        = pre @ last grp @ (lit '' '' @ lit '' '' @ join (lit '' '') grp')"
      unfolding ol using join_overlap_first [OF grp'] by simp
    then have two: "contains (join (lit '' '') (overlap_list ch (ov @ grp) @ grp')) (last grp)"
      using contains_mid by simp
    show ?thesis using True one two by simp
  next
    case False
    from overlap_carries_last [OF ne, of ch] False l
    have "overlap_of ch (ov @ grp) = []" by auto
    then show ?thesis using False by (simp add: overlap_list_def)
  qed
qed

text \<open>
  Two examples with tiktoken's token counts (\<open>sample_encoder\<close>). The first lemma is the
  chunker with a budget of 3 tokens and an overlap of 1 token at the section \<open>A. B.\<close>,
  for any encoder: all it needs of the token counts is that the content and the
  header with the two sentences exceed the budget, and that the first sentence has at
  least \<open>overlap_tokens\<close> tokens. The second is a chunker with a budget of 5 tokens and
  an overlap of 3 tokens at the section \<open>A. B. C.\<close>: each chunk starts with the last
  sentence of the chunk before it.
\<close>

lemma sentences_two: "split_into_sentences (lit ''A. B.'') = [lit ''A.'', lit ''B.'']"
  by code_simp

lemma header_two: "build_section_header two_sentence_doc = lit ''[1]'' @ [newline, newline]"
  by code_simp

lemma two_sentences_without_overlap:
  assumes long: "max_tokens ch < count_tokens ch (lit ''A. B.'')"
    and close: "max_tokens ch
        < count_tokens ch (build_section_header two_sentence_doc)
          + count_tokens ch (lit ''A.'') + count_tokens ch (lit ''B.'')"
    and big: "overlap_tokens ch \<le> count_tokens ch (lit ''A.'')"
  shows "map Chunk.content (chunk_document lower ch two_sentence_doc)
     = [build_section_header two_sentence_doc @ lit ''A.'',
        build_section_header two_sentence_doc @ lit ''B.'']"
proof -
  have c: "LegalDocument.content two_sentence_doc = lit ''A. B.''"
    by (simp add: two_sentence_doc_def)
  have o: "overlap_of ch [lit ''A.''] = []"
    using big by (simp add: overlap_of_def)
  have a: "lit ''A.'' \<noteq> []" by (simp add: lit_def)
  show ?thesis
    using long close
    by (simp add: chunk_document_def Let_def c sentences_two o make_chunk_def)
qed

lemma three_eval:
  "map Chunk.content (chunk_document ascii_lower overlap_chunker three_sentence_doc)
     = [lit ''[1]'' @ [newline, newline] @ lit ''A.'',
        lit ''[1]'' @ [newline, newline] @ lit ''A.  B.'',
        lit ''[1]'' @ [newline, newline] @ lit ''B.  C.'']"
  by code_simp

text \<open>
  Claim C5 asks that consecutive chunks of a long section share a sentence whenever
  \<open>overlap_tokens > 0\<close>, and that no sentence is dropped. The second part holds.
  The first does not: the overlap takes whole sentences from the end of the closed chunk
  only while their token total stays below \<open>overlap_tokens\<close> (line 85), so a last
  sentence of \<open>overlap_tokens\<close> tokens or more leaves the next chunk with no overlap.

  What holds, for a section whose content has more than \<open>max_tokens\<close> tokens: there
  are pairs \<open>(ov, grp)\<close>, one per chunk and in the chunks' order, such that the chunk's
  content is the header followed by \<open>ov @ grp\<close> joined by spaces; the groups are not
  empty and their concatenation is the list of the section's sentences; the first
  overlap prefix is empty and each later one is the overlap of the chunk before it.
  For two consecutive chunks: when the last sentence of the first has fewer than
  \<open>overlap_tokens\<close> tokens, both bodies contain that sentence; otherwise the second
  chunk has no overlap prefix, so its body is its own group of sentences.
  The overlap is the concatenation, each followed by a space, of a suffix of the
  closed chunk's sentence list; the suffix is not empty exactly when the last sentence
  has fewer than \<open>overlap_tokens\<close> tokens, its token total is below
  \<open>overlap_tokens\<close>, and one more sentence would reach it.
\<close>

theorem chunk_document_sentence_groups:
  assumes "max_tokens ch < count_tokens ch (LegalDocument.content doc)"
  shows "(\<exists>ps.
        map Chunk.content (chunk_document lower ch doc)
          = map (\<lambda>(ov, grp). build_section_header doc @ join (lit '' '') (ov @ grp)) ps
      \<and> concat (map snd ps) = split_into_sentences (LegalDocument.content doc)
      \<and> list_all (\<lambda>(ov, grp). grp \<noteq> []) ps
      \<and> (ps \<noteq> [] \<longrightarrow> fst (hd ps) = [])
      \<and> (\<forall>i. Suc i < length ps \<longrightarrow>
            fst (ps ! Suc i) = overlap_list ch (fst (ps ! i) @ snd (ps ! i)))
      \<and> (\<forall>i. Suc i < length ps \<longrightarrow>
            (if count_tokens ch (last (snd (ps ! i))) < overlap_tokens ch
             then contains (join (lit '' '') (fst (ps ! i) @ snd (ps ! i))) (last (snd (ps ! i)))
                \<and> contains (join (lit '' '') (fst (ps ! Suc i) @ snd (ps ! Suc i)))
                     (last (snd (ps ! i)))
             else fst (ps ! Suc i) = [])))
    \<and> (\<forall>cur. cur \<noteq> [] \<longrightarrow>
          (\<exists>j\<le>length cur.
              overlap_of ch cur = concat (map (\<lambda>s. s @ lit '' '') (drop j cur))
            \<and> (j < length cur \<longleftrightarrow> count_tokens ch (last cur) < overlap_tokens ch)
            \<and> (j < length cur \<longrightarrow> sum_list (map (count_tokens ch) (drop j cur)) < overlap_tokens ch)
            \<and> (0 < j \<longrightarrow> \<not> sum_list (map (count_tokens ch) (drop (j - 1) cur)) < overlap_tokens ch)))"
proof (rule conjI)
  let ?h = "build_section_header doc"
  let ?ht = "count_tokens ch ?h"
  let ?ss = "split_into_sentences (LegalDocument.content doc)"
  obtain closed ov grp cnt where g: "group_loop ch ?ht ?ss ([], [], [], ?ht) = (closed, ov, grp, cnt)"
    by (cases "group_loop ch ?ht ?ss ([], [], [], ?ht)") auto
  have loop: "chunk_loop lower ch doc ?h ?ht ?ss ([], [], ?ht, 0)
      = (chunks_of lower doc ?h closed, ov @ grp, cnt, int (length closed))"
    using chunk_loop_groups [of lower ch doc ?h ?ht ?ss "[]" "[]" "[]" ?ht] g
    by (simp add: chunks_of_def)
  define ps where "ps = (if ov @ grp \<noteq> [] then closed @ [(ov, grp)] else closed)"
  have cat: "concat (map snd closed) @ grp = ?ss"
    using group_loop_concat [OF g] by simp
  have ok: "groups_ok closed ov grp"
    using group_loop_nonempty [OF g] by (simp add: groups_ok_def)
  have chain: "chain_ok ch (closed @ [(ov, grp)])"
    using group_loop_chain [OF g] by (simp add: chain_ok_def)
  have res: "chunk_document lower ch doc
      = map (\<lambda>c. c\<lparr>total_chunks := int (length ps)\<rparr>) (chunks_of lower doc ?h ps)"
    using assms loop by (simp add: chunk_document_def Let_def ps_def chunks_of_snoc)
  have p1: "map Chunk.content (chunk_document lower ch doc)
      = map (\<lambda>(ov, grp). ?h @ join (lit '' '') (ov @ grp)) ps"
    by (simp add: res comp_def content_chunks_of)
  have p2: "concat (map snd ps) = ?ss"
    using cat ok by (auto simp: ps_def groups_ok_def)
  have p3: "list_all (\<lambda>(ov, grp). grp \<noteq> []) ps"
    using ok by (auto simp: ps_def groups_ok_def)
  have p45: "chain_ok ch ps"
  proof (cases "ov @ grp \<noteq> []")
    case True
    then show ?thesis using chain by (simp add: ps_def)
  next
    case False
    then have e: "ps = closed" "closed = []" using ok by (auto simp: ps_def groups_ok_def)
    show ?thesis by (simp add: e chain_ok_def)
  qed
  have p4: "ps \<noteq> [] \<longrightarrow> fst (hd ps) = []"
    using p45 by (simp add: chain_ok_def)
  have p5: "\<forall>i. Suc i < length ps \<longrightarrow>
      fst (ps ! Suc i) = overlap_list ch (fst (ps ! i) @ snd (ps ! i))"
    using p45 by (simp add: chain_ok_def)
  have ne: "snd (ps ! k) \<noteq> []" if "k < length ps" for k
  proof -
    from p3 that have "case ps ! k of (ov, grp) \<Rightarrow> grp \<noteq> []"
      by (simp add: list_all_length)
    then show ?thesis by (cases "ps ! k") simp
  qed
  have p6: "\<forall>i. Suc i < length ps \<longrightarrow>
      (if count_tokens ch (last (snd (ps ! i))) < overlap_tokens ch
       then contains (join (lit '' '') (fst (ps ! i) @ snd (ps ! i))) (last (snd (ps ! i)))
          \<and> contains (join (lit '' '') (fst (ps ! Suc i) @ snd (ps ! Suc i)))
               (last (snd (ps ! i)))
       else fst (ps ! Suc i) = [])"
  proof (intro allI impI)
    fix i assume i: "Suc i < length ps"
    have c: "fst (ps ! Suc i) = overlap_list ch (fst (ps ! i) @ snd (ps ! i))"
      using p5 i by blast
    have a: "snd (ps ! i) \<noteq> []" using ne [of i] i by simp
    have b: "snd (ps ! Suc i) \<noteq> []" using ne [of "Suc i"] i by simp
    show "if count_tokens ch (last (snd (ps ! i))) < overlap_tokens ch
       then contains (join (lit '' '') (fst (ps ! i) @ snd (ps ! i))) (last (snd (ps ! i)))
          \<and> contains (join (lit '' '') (fst (ps ! Suc i) @ snd (ps ! Suc i)))
               (last (snd (ps ! i)))
       else fst (ps ! Suc i) = []"
      unfolding c by (rule next_chunk_shares [OF a b])
  qed
  show "\<exists>ps.
        map Chunk.content (chunk_document lower ch doc)
          = map (\<lambda>(ov, grp). ?h @ join (lit '' '') (ov @ grp)) ps
      \<and> concat (map snd ps) = ?ss
      \<and> list_all (\<lambda>(ov, grp). grp \<noteq> []) ps
      \<and> (ps \<noteq> [] \<longrightarrow> fst (hd ps) = [])
      \<and> (\<forall>i. Suc i < length ps \<longrightarrow>
            fst (ps ! Suc i) = overlap_list ch (fst (ps ! i) @ snd (ps ! i)))
      \<and> (\<forall>i. Suc i < length ps \<longrightarrow>
            (if count_tokens ch (last (snd (ps ! i))) < overlap_tokens ch
             then contains (join (lit '' '') (fst (ps ! i) @ snd (ps ! i))) (last (snd (ps ! i)))
                \<and> contains (join (lit '' '') (fst (ps ! Suc i) @ snd (ps ! Suc i)))
                     (last (snd (ps ! i)))
             else fst (ps ! Suc i) = []))"
    apply (rule exI [of _ ps])
    apply (rule conjI, rule p1)
    apply (rule conjI, rule p2)
    apply (rule conjI, rule p3)
    apply (rule conjI, rule p4)
    apply (rule conjI, rule p5)
    apply (rule p6)
    done
next
  show "\<forall>cur. cur \<noteq> [] \<longrightarrow>
          (\<exists>j\<le>length cur.
              overlap_of ch cur = concat (map (\<lambda>s. s @ lit '' '') (drop j cur))
            \<and> (j < length cur \<longleftrightarrow> count_tokens ch (last cur) < overlap_tokens ch)
            \<and> (j < length cur \<longrightarrow> sum_list (map (count_tokens ch) (drop j cur)) < overlap_tokens ch)
            \<and> (0 < j \<longrightarrow> \<not> sum_list (map (count_tokens ch) (drop (j - 1) cur)) < overlap_tokens ch))"
    by (intro allI impI) (rule overlap_of_suffix)
qed

theorem chunk_document_sentence_groups_witness:
  "max_tokens overlap_chunker < count_tokens overlap_chunker (LegalDocument.content three_sentence_doc)
   \<and> (\<exists>ps. map Chunk.content (chunk_document ascii_lower overlap_chunker three_sentence_doc)
          = map (\<lambda>(ov, grp). build_section_header three_sentence_doc @ join (lit '' '') (ov @ grp)) ps
        \<and> concat (map snd ps) = split_into_sentences (LegalDocument.content three_sentence_doc)
        \<and> list_all (\<lambda>(ov, grp). grp \<noteq> []) ps)"
proof -
  have h: "max_tokens overlap_chunker
             < count_tokens overlap_chunker (LegalDocument.content three_sentence_doc)"
    by code_simp
  from chunk_document_sentence_groups [OF h, of ascii_lower] h show ?thesis by blast
qed

text \<open>
  The counterexample to C5 as it is written: a budget of 3 tokens and an overlap of 1
  token. tiktoken gives the section \<open>A. B.\<close> four tokens and each of its two sentences
  two tokens; the chunker returns two chunks, the overlap loop takes no sentence, since
  \<open>0 + 2 < 1\<close> fails, and the two chunk bodies share no sentence.
\<close>

theorem chunk_document_overlap_counterexample:
  "0 < overlap_tokens small_chunker
   \<and> max_tokens small_chunker < count_tokens small_chunker (LegalDocument.content two_sentence_doc)
   \<and> split_into_sentences (LegalDocument.content two_sentence_doc) = [lit ''A.'', lit ''B.'']
   \<and> map Chunk.content (chunk_document ascii_lower small_chunker two_sentence_doc)
       = [lit ''[1]'' @ [newline, newline] @ lit ''A.'', lit ''[1]'' @ [newline, newline] @ lit ''B.'']
   \<and> overlap_of small_chunker [lit ''A.''] = []
   \<and> shared_sentences [lit ''A.'', lit ''B.''] (lit ''A.'') (lit ''B.'') = []"
  by code_simp

end
